theory Spec2Isabelle
  imports Complex_Main
begin

section \<open>Python string primitives used by the pipeline\<close>

text \<open>
  Texts are lists of characters; offsets and sizes are Python's unbounded integers.
  Characters are restricted to code points below 256, on which \<open>str.isspace\<close> (the
  characters removed by \<open>str.strip()\<close> and matched by the regular expression
  class \<open>\s\<close>) holds for 9-13, 28-31, 32, 133 and 160.
\<close>

definition isspace :: "char \<Rightarrow> bool" where
  "isspace c = (of_char c \<in> {9, 10, 11, 12, 13, 28, 29, 30, 31, 32, 133, 160 :: nat})"

definition py_strip :: "string \<Rightarrow> string" where
  "py_strip s = rev (dropWhile isspace (rev (dropWhile isspace s)))"

text \<open>
  Index adjustment of slices and of \<open>str.rfind\<close>: a negative index counts from
  the end of the sequence, and the result is clipped to the range from 0 to the length.
\<close>

definition slice_index :: "nat \<Rightarrow> int \<Rightarrow> nat" where
  "slice_index n i = (if i < 0 then nat (int n + i) else min (nat i) n)"

definition py_slice :: "'a list \<Rightarrow> int \<Rightarrow> int \<Rightarrow> 'a list" where
  "py_slice xs i j =
     (let n = length xs; a = slice_index n i; b = slice_index n j
      in take (b - a) (drop a xs))"

text \<open>
  \<open>rfind_down c s lo hi\<close> scans the positions \<open>hi - 1\<close> down to \<open>lo\<close> and
  returns the first (that is, the highest) one holding \<open>c\<close>, or -1.
\<close>

primrec rfind_down :: "char \<Rightarrow> string \<Rightarrow> nat \<Rightarrow> nat \<Rightarrow> int" where
  "rfind_down c s lo 0 = - 1"
| "rfind_down c s lo (Suc k) =
     (if k < lo then - 1 else if s ! k = c then int k else rfind_down c s lo k)"

definition rfind :: "string \<Rightarrow> char \<Rightarrow> int \<Rightarrow> int \<Rightarrow> int" where
  "rfind s c i j =
     (let n = length s in rfind_down c s (slice_index n i) (slice_index n j))"

section \<open>Chunker: \<open>PDFProcessor.chunk_text\<close>\<close>

record chunk =
  ch_text :: string
  ch_start :: int
  ch_end :: int
  ch_chunk_index :: int
  ch_char_count :: int

text \<open>The variables the \<open>while\<close> loop updates.\<close>

record chunk_state =
  st_start :: int
  st_chunk_index :: int
  st_chunks :: "chunk list"

text \<open>
  The end offset chosen in one iteration: the candidate \<open>start + chunk_size\<close>, moved
  back to just past a period or a newline when the candidate lies inside the text.
\<close>

definition chunk_end :: "string \<Rightarrow> int \<Rightarrow> int \<Rightarrow> int" where
  "chunk_end text start chunk_size =
     (let end' = start + chunk_size
      in if end' \<ge> int (length text) then end'
         else
           (let last_period = rfind text (CHR ''.'') start end';
                last_newline = rfind text (CHR 0x0A) start end'
            in if last_period > start \<and> last_period > last_newline then last_period + 1
               else if last_newline > start then last_newline + 1
               else end'))"

text \<open>The cursor update that closes an iteration.\<close>

definition next_start :: "int \<Rightarrow> int \<Rightarrow> int" where
  "next_start end' overlap =
     (let start = end' - overlap in if start < 0 then end' else start)"

text \<open>One pass through the loop body.\<close>

definition chunk_step :: "string \<Rightarrow> int \<Rightarrow> int \<Rightarrow> chunk_state \<Rightarrow> chunk_state" where
  "chunk_step text chunk_size overlap st =
     (let start = st_start st;
          end' = chunk_end text start chunk_size;
          chunk_text = py_strip (py_slice text start end');
          st' = (if chunk_text \<noteq> []
                 then st\<lparr>st_chunks := st_chunks st @
                            [\<lparr>ch_text = chunk_text, ch_start = start, ch_end = end',
                              ch_chunk_index = st_chunk_index st,
                              ch_char_count = int (length chunk_text)\<rparr>],
                         st_chunk_index := st_chunk_index st + 1\<rparr>
                 else st)
      in st'\<lparr>st_start := next_start end' overlap\<rparr>)"

text \<open>
  The loop, with fuel: \<open>None\<close> means that the given number of iterations did not
  bring the cursor to the end of the text. The chunk size and the overlap are given
  explicitly; left out, they are the settings' 800 and 150.
\<close>

fun chunk_loop :: "nat \<Rightarrow> string \<Rightarrow> int \<Rightarrow> int \<Rightarrow> chunk_state \<Rightarrow> chunk list option" where
  "chunk_loop 0 text chunk_size overlap st = None"
| "chunk_loop (Suc n) text chunk_size overlap st =
     (if st_start st < int (length text)
      then chunk_loop n text chunk_size overlap (chunk_step text chunk_size overlap st)
      else Some (st_chunks st))"

definition chunk_init :: chunk_state where
  "chunk_init = \<lparr>st_start = 0, st_chunk_index = 0, st_chunks = []\<rparr>"

definition chunk_text :: "nat \<Rightarrow> string \<Rightarrow> int \<Rightarrow> int \<Rightarrow> chunk list option" where
  "chunk_text fuel text chunk_size overlap = chunk_loop fuel text chunk_size overlap chunk_init"

text \<open>
  The state after \<open>k\<close> passes (fewer when the loop has ended before): its chunk list
  holds every chunk emitted so far, whether or not the loop ever ends.
\<close>

fun chunk_run :: "nat \<Rightarrow> string \<Rightarrow> int \<Rightarrow> int \<Rightarrow> chunk_state \<Rightarrow> chunk_state" where
  "chunk_run 0 text chunk_size overlap st = st"
| "chunk_run (Suc k) text chunk_size overlap st =
     (if st_start st < int (length text)
      then chunk_run k text chunk_size overlap (chunk_step text chunk_size overlap st)
      else st)"


text \<open>
  The boundary rule in the words of the specification, for comparison with
  \<open>chunk_end\<close>: \<open>positions text c lo hi\<close> lists the offsets in \<open>[lo, hi)\<close>
  that hold \<open>c\<close>, in increasing order.
\<close>

definition positions :: "string \<Rightarrow> char \<Rightarrow> int \<Rightarrow> int \<Rightarrow> int list" where
  "positions text c lo hi = filter (\<lambda>p. text ! nat p = c) [lo..hi - 1]"

text \<open>
  As the specification words it: the last period of \<open>[start, start + chunk_size)\<close>
  when there is one and it lies after the last newline of the window, else the last
  newline when there is one after \<open>start\<close>, else the raw cut.
\<close>

definition spec_chunk_end :: "string \<Rightarrow> int \<Rightarrow> int \<Rightarrow> int" where
  "spec_chunk_end text start chunk_size =
     (let periods = positions text (CHR ''.'') start (start + chunk_size);
          newlines = positions text (CHR 0x0A) start (start + chunk_size)
      in if periods \<noteq> [] \<and> (newlines = [] \<or> last newlines < last periods)
         then last periods + 1
         else if filter (\<lambda>p. start < p) newlines \<noteq> [] then last newlines + 1
         else start + chunk_size)"

text \<open>
  The same rule with the period looked for strictly after \<open>start\<close>, as the
  newline is.
\<close>

definition boundary_chunk_end :: "string \<Rightarrow> int \<Rightarrow> int \<Rightarrow> int" where
  "boundary_chunk_end text start chunk_size =
     (let periods = positions text (CHR ''.'') (start + 1) (start + chunk_size);
          newlines = positions text (CHR 0x0A) (start + 1) (start + chunk_size)
      in if periods \<noteq> [] \<and> (newlines = [] \<or> last newlines < last periods)
         then last periods + 1
         else if newlines \<noteq> [] then last newlines + 1
         else start + chunk_size)"

text \<open>What every emitted chunk satisfies.\<close>

definition chunk_ok :: "string \<Rightarrow> int \<Rightarrow> chunk \<Rightarrow> bool" where
  "chunk_ok text chunk_size c \<longleftrightarrow>
     ch_text c = py_strip (py_slice text (ch_start c) (ch_end c)) \<and>
     ch_end c \<le> ch_start c + chunk_size \<and>
     int (length (ch_text c)) \<le> chunk_size \<and>
     ch_char_count c = int (length (ch_text c))"

section \<open>Text cleaning: \<open>PDFProcessor.clean_text\<close>\<close>

text \<open>
  \<open>re.sub(r'\s+', ' ', text)\<close>: every maximal run of whitespace is replaced by one
  space.
\<close>

function sub_whitespace :: "string \<Rightarrow> string" where
  "sub_whitespace [] = []"
| "sub_whitespace (c # cs) =
     (if isspace c then CHR '' '' # sub_whitespace (dropWhile isspace cs)
      else c # sub_whitespace cs)"
  by pat_completeness auto
termination
  by (relation "measure length") (auto simp: le_imp_less_Suc length_dropWhile_le)

text \<open>
  \<open>re.sub(r'\n\s*\n', '\n\n', text)\<close>: at a newline, the greedy \<open>\s*\<close> takes the
  whole whitespace run that follows and backtracks to the last newline in it; the match,
  when there is one, is replaced by two newlines and the scan goes on behind it.
  \<open>blank_match_length cs\<close> is the number of characters of \<open>cs\<close> the match takes.
\<close>

definition blank_match_length :: "string \<Rightarrow> nat" where
  "blank_match_length cs =
     length (dropWhile (\<lambda>x. x \<noteq> CHR 0x0A) (rev (takeWhile isspace cs)))"

function sub_blank_lines :: "string \<Rightarrow> string" where
  "sub_blank_lines [] = []"
| "sub_blank_lines (c # cs) =
     (if c = CHR 0x0A \<and> CHR 0x0A \<in> set (takeWhile isspace cs)
      then CHR 0x0A # CHR 0x0A # sub_blank_lines (drop (blank_match_length cs) cs)
      else c # sub_blank_lines cs)"
  by pat_completeness auto
termination
  by (relation "measure length") auto

definition clean_text :: "string \<Rightarrow> string" where
  "clean_text text =
     (if text = [] then []
      else py_strip (sub_blank_lines (sub_whitespace text)))"

section \<open>Extractor: \<open>PDFProcessor.extract_text_from_pdf\<close>\<close>

text \<open>
  What reading the file gives is the input of the model: opening the document raises
  (with a message) or yields the pages, and \<open>extract_text\<close> on a page raises or
  returns a string or \<open>None\<close>.
\<close>

datatype page_read = PageText "string option" | PageRaises string

datatype pdf_read = OpenRaises string | Opened "page_read list"

record page_info =
  pg_page :: int
  pg_text :: string
  pg_char_count :: int

record document =
  doc_file_path :: string
  doc_filename :: string
  doc_full_text :: string
  doc_pages :: "page_info list"
  doc_total_pages :: int
  doc_total_chars :: int

text \<open>\<open>sep.join(parts)\<close>.\<close>

fun join :: "'a list \<Rightarrow> 'a list list \<Rightarrow> 'a list" where
  "join sep [] = []"
| "join sep [x] = x"
| "join sep (x # y # ys) = x @ sep @ join sep (y # ys)"

text \<open>
  The loop over \<open>enumerate(pdf.pages, 1)\<close>: \<open>Inl\<close> carries the message of the
  first exception, \<open>Inr\<close> the page index built from the pages whose text is truthy.
\<close>

fun extract_pages :: "int \<Rightarrow> page_read list \<Rightarrow> string + page_info list" where
  "extract_pages page_num [] = Inr []"
| "extract_pages page_num (PageRaises e # ps) = Inl e"
| "extract_pages page_num (PageText t # ps) =
     (case extract_pages (page_num + 1) ps of
        Inl e \<Rightarrow> Inl e
      | Inr pages_info \<Rightarrow>
          (case t of
             None \<Rightarrow> Inr pages_info
           | Some text \<Rightarrow>
               if text = [] then Inr pages_info
               else Inr (\<lparr>pg_page = page_num, pg_text = clean_text text,
                           pg_char_count = int (length (clean_text text))\<rparr> # pages_info)))"

definition error_line :: "string \<Rightarrow> string \<Rightarrow> string" where
  "error_line file_path e = ''Error processing '' @ file_path @ '': '' @ e"

text \<open>
  The result is the pair of the lines printed and the value returned. \<open>filename\<close>
  stands for \<open>Path(file_path).name\<close>.
\<close>

definition extract_text_from_pdf ::
    "string \<Rightarrow> string \<Rightarrow> pdf_read \<Rightarrow> string list \<times> document option" where
  "extract_text_from_pdf file_path filename rd =
     (case rd of
        OpenRaises e \<Rightarrow> ([error_line file_path e], None)
      | Opened ps \<Rightarrow>
          (case extract_pages 1 ps of
             Inl e \<Rightarrow> ([error_line file_path e], None)
           | Inr pages_info \<Rightarrow>
               if pages_info = [] then ([], None)
               else
                 (let full_text = join [CHR 0x0A, CHR 0x0A] (map pg_text pages_info)
                  in ([], Some \<lparr>doc_file_path = file_path, doc_filename = filename,
                                 doc_full_text = full_text, doc_pages = pages_info,
                                 doc_total_pages = int (length pages_info),
                                 doc_total_chars = int (length full_text)\<rparr>))))"

text \<open>The two outcomes the specification tells apart.\<close>

fun read_fails :: "pdf_read \<Rightarrow> bool" where
  "read_fails (OpenRaises e) = True"
| "read_fails (Opened ps) = list_ex (\<lambda>p. case p of PageRaises e \<Rightarrow> True | PageText t \<Rightarrow> False) ps"

fun no_page_text :: "pdf_read \<Rightarrow> bool" where
  "no_page_text (OpenRaises e) = False"
| "no_page_text (Opened ps) =
     list_all (\<lambda>p. case p of PageRaises e \<Rightarrow> False
                       | PageText t \<Rightarrow> t = None \<or> t = Some []) ps"

section \<open>Page resolution: \<open>PDFProcessor._get_page_for_position\<close>\<close>

fun page_walk :: "int \<Rightarrow> int \<Rightarrow> page_info list \<Rightarrow> int option" where
  "page_walk position current_pos [] = None"
| "page_walk position current_pos (page_info # rest) =
     (let current_pos' = current_pos + (pg_char_count page_info + 2)
      in if position < current_pos' then Some (pg_page page_info)
         else page_walk position current_pos' rest)"

definition get_page_for_position :: "int \<Rightarrow> page_info list \<Rightarrow> int" where
  "get_page_for_position position pages =
     (case page_walk position 0 pages of
        Some n \<Rightarrow> n
      | None \<Rightarrow> if pages \<noteq> [] then pg_page (last pages) else 1)"

text \<open>The running total after the page at index \<open>k\<close>.\<close>

definition running_total :: "page_info list \<Rightarrow> nat \<Rightarrow> int" where
  "running_total pages k = (\<Sum>p\<leftarrow>take (Suc k) pages. pg_char_count p + 2)"


section \<open>Rendering integers: \<open>str(int)\<close>\<close>

function str_nat :: "nat \<Rightarrow> string" where
  "str_nat n =
     (if n < 10 then [char_of (48 + n)]
      else str_nat (n div 10) @ [char_of (48 + n mod 10)])"
  by pat_completeness auto
termination
  by (relation "measure id") auto

declare str_nat.simps [simp del]

definition str_int :: "int \<Rightarrow> string" where
  "str_int i = (if i < 0 then CHR ''-'' # str_nat (nat (- i)) else str_nat (nat i))"

section \<open>Retriever: \<open>RAGService.query\<close>\<close>

text \<open>
  A metadata dictionary, with \<open>None\<close> for a key that is absent. Distances are
  modelled as real numbers.
\<close>

record metadata =
  md_source :: "string option"
  md_file_path :: "string option"
  md_page :: "int option"
  md_chunk_index :: "int option"
  md_total_chunks :: "int option"
  md_char_count :: "int option"

record search_result =
  sr_text :: string
  sr_metadata :: metadata
  sr_distance :: "real option"

text \<open>The \<open>page\<close> of a source is the stored integer or the default string.\<close>

datatype py_value = PyInt int | PyStr string

fun py_str :: "py_value \<Rightarrow> string" where
  "py_str (PyInt i) = str_int i"
| "py_str (PyStr s) = s"

record source_entry =
  src_source :: string
  src_file_path :: string
  src_page :: py_value
  src_chunk_index :: int
  src_relevance_score :: "real option"

record retrieval_context =
  rc_context :: string
  rc_sources :: "source_entry list"

record query_state =
  q_context_parts :: "string list"
  q_sources :: "source_entry list"
  q_seen_sources :: "string set"

definition result_source :: "search_result \<Rightarrow> string" where
  "result_source result =
     (case md_source (sr_metadata result) of None \<Rightarrow> ''Unknown'' | Some s \<Rightarrow> s)"

definition result_page :: "search_result \<Rightarrow> py_value" where
  "result_page result =
     (case md_page (sr_metadata result) of None \<Rightarrow> PyStr ''N/A'' | Some n \<Rightarrow> PyInt n)"

definition source_key :: "string \<Rightarrow> py_value \<Rightarrow> string" where
  "source_key source page = source @ ''_p'' @ py_str page"

definition relevance_score :: "search_result \<Rightarrow> real option" where
  "relevance_score result =
     (case sr_distance result of
        None \<Rightarrow> None
      | Some d \<Rightarrow> if d \<noteq> 0 then Some (1 - d) else None)"

definition source_of :: "search_result \<Rightarrow> source_entry" where
  "source_of result =
     \<lparr>src_source = result_source result,
      src_file_path = (case md_file_path (sr_metadata result) of None \<Rightarrow> [] | Some f \<Rightarrow> f),
      src_page = result_page result,
      src_chunk_index = (case md_chunk_index (sr_metadata result) of None \<Rightarrow> 0 | Some k \<Rightarrow> k),
      src_relevance_score = relevance_score result\<rparr>"

definition context_part :: "int \<Rightarrow> string \<Rightarrow> string" where
  "context_part i text = ''['' @ str_int i @ ''] '' @ text"

text \<open>One pass through the body of the \<open>for\<close> loop.\<close>

definition query_step :: "int \<Rightarrow> search_result \<Rightarrow> query_state \<Rightarrow> query_state" where
  "query_step i result st =
     (let st' = st\<lparr>q_context_parts := q_context_parts st @ [context_part i (sr_text result)]\<rparr>;
          key = source_key (result_source result) (result_page result)
      in if key \<notin> q_seen_sources st'
         then st'\<lparr>q_sources := q_sources st' @ [source_of result],
                  q_seen_sources := insert key (q_seen_sources st')\<rparr>
         else st')"

text \<open>The loop over \<open>enumerate(results, i)\<close>.\<close>

fun query_loop :: "int \<Rightarrow> search_result list \<Rightarrow> query_state \<Rightarrow> query_state" where
  "query_loop i [] st = st"
| "query_loop i (result # results) st = query_loop (i + 1) results (query_step i result st)"

text \<open>\<open>query\<close>, from the results that \<open>search\<close> returned.\<close>

definition query :: "search_result list \<Rightarrow> retrieval_context" where
  "query results =
     (if results = [] then \<lparr>rc_context = [], rc_sources = []\<rparr>
      else
        (let st = query_loop 1 results
                    \<lparr>q_context_parts = [], q_sources = [], q_seen_sources = {}\<rparr>
         in \<lparr>rc_context = join [CHR 0x0A, CHR 0x0A] (q_context_parts st),
             rc_sources = q_sources st\<rparr>))"

text \<open>The pair by which the specification deduplicates.\<close>

definition source_page :: "search_result \<Rightarrow> string \<times> py_value" where
  "source_page result = (result_source result, result_page result)"

section \<open>Index store: \<open>Vectorizer.add_documents\<close>\<close>

datatype py_error = KeyError string | StoreError string

record processed_chunk =
  pc_text :: string
  pc_metadata :: metadata

record 'e stored_record =
  rec_embedding :: 'e
  rec_document :: string
  rec_metadata :: metadata

type_synonym 'e collection = "string \<rightharpoonup> 'e stored_record"

text \<open>The id of a record; subscripting a missing key raises.\<close>

definition record_id :: "metadata \<Rightarrow> py_error + string" where
  "record_id meta =
     (case md_source meta of
        None \<Rightarrow> Inl (KeyError ''source'')
      | Some source \<Rightarrow>
          (case md_chunk_index meta of
             None \<Rightarrow> Inl (KeyError ''chunk_index'')
           | Some chunk_index \<Rightarrow> Inr (source @ ''_'' @ str_int chunk_index)))"

fun record_ids :: "metadata list \<Rightarrow> py_error + string list" where
  "record_ids [] = Inr []"
| "record_ids (meta # metas) =
     (case record_id meta of
        Inl e \<Rightarrow> Inl e
      | Inr i \<Rightarrow> (case record_ids metas of Inl e \<Rightarrow> Inl e | Inr ids \<Rightarrow> Inr (i # ids)))"

text \<open>
  \<open>add_documents\<close>. The embedding model and the collection's \<open>add\<close> belong to
  libraries, not to the repository, and are parameters: \<open>encode\<close> is applied to each
  text in order, and \<open>collection_add\<close> takes the embeddings, documents, metadatas and
  ids and returns the new collection or raises.
\<close>

definition add_documents ::
    "('e list \<Rightarrow> string list \<Rightarrow> metadata list \<Rightarrow> string list \<Rightarrow> 's \<Rightarrow> py_error + 's) \<Rightarrow>
     (string \<Rightarrow> 'e) \<Rightarrow> processed_chunk list \<Rightarrow> 's \<Rightarrow> py_error + 's" where
  "add_documents collection_add encode chunks coll =
     (if chunks = [] then Inr coll
      else
        (let texts = map pc_text chunks;
             metadatas = map pc_metadata chunks;
             embeddings = map encode texts
         in case record_ids metadatas of
              Inl e \<Rightarrow> Inl e
            | Inr ids \<Rightarrow> collection_add embeddings texts metadatas ids coll))"

text \<open>
  Modelled from the spec: the store's \<open>add\<close> as the specification describes it,
  keyed by id: a record whose id is new is appended, a record whose id is stored already
  overwrites the stored one.
\<close>

definition collection_add_overwrite ::
    "'e list \<Rightarrow> string list \<Rightarrow> metadata list \<Rightarrow> string list \<Rightarrow> 'e collection \<Rightarrow>
     py_error + 'e collection" where
  "collection_add_overwrite embeddings documents metadatas ids coll =
     Inr (fold (\<lambda>(i, e, d, m) c.
                  c(i \<mapsto> \<lparr>rec_embedding = e, rec_document = d, rec_metadata = m\<rparr>))
            (zip ids (zip embeddings (zip documents metadatas))) coll)"


section \<open>Properties of the string primitives\<close>

lemma slice_index_le: "slice_index n i \<le> n"
proof (cases "i < 0")
  case True
  then have "nat (int n + i) \<le> n" by linarith
  with True show ?thesis by (simp add: slice_index_def)
next
  case False
  then show ?thesis by (simp add: slice_index_def)
qed

lemma slice_index_nonneg: "0 \<le> i \<Longrightarrow> slice_index n i = min (nat i) n"
  by (simp add: slice_index_def)

lemma rfind_down_range:
  "rfind_down c s lo k = - 1 \<or> (int lo \<le> rfind_down c s lo k \<and> rfind_down c s lo k < int k)"
  by (induction k) auto

lemma rfind_down_absent: "k \<le> length s \<Longrightarrow> c \<notin> set s \<Longrightarrow> rfind_down c s lo k = - 1"
  by (induction k) auto

lemma rfind_absent: "c \<notin> set s \<Longrightarrow> rfind s c i j = - 1"
  by (simp add: rfind_def Let_def rfind_down_absent slice_index_le)

lemma rfind_less:
  assumes j: "0 \<le> j"
  shows "rfind s c i j < j"
proof -
  have "int (slice_index (length s) j) \<le> j"
    using j by (simp add: slice_index_def)
  then show ?thesis
    using j rfind_down_range [of c s "slice_index (length s) i" "slice_index (length s) j"]
    unfolding rfind_def Let_def by linarith
qed

lemma length_py_strip_le: "length (py_strip s) \<le> length s"
  unfolding py_strip_def
  by (metis length_dropWhile_le length_rev order_trans)

lemma length_py_slice_le:
  "0 \<le> i \<Longrightarrow> 0 \<le> j \<Longrightarrow> int (length (py_slice xs i j)) \<le> max 0 (j - i)"
  by (auto simp: py_slice_def Let_def slice_index_def)

section \<open>Properties of the chunker\<close>

lemma chunk_end_le:
  "0 \<le> start \<Longrightarrow> 1 \<le> chunk_size \<Longrightarrow> chunk_end text start chunk_size \<le> start + chunk_size"
  using rfind_less [of "start + chunk_size" "text" "CHR ''.''" start]
    rfind_less [of "start + chunk_size" "text" "CHR 0x0A" start]
  by (auto simp: chunk_end_def Let_def)

lemma chunk_end_gt:
  "0 \<le> start \<Longrightarrow> 1 \<le> chunk_size \<Longrightarrow> start < chunk_end text start chunk_size"
  by (auto simp: chunk_end_def Let_def)

lemma next_start_nonneg: "0 \<le> e \<Longrightarrow> 0 \<le> next_start e overlap"
  by (simp add: next_start_def Let_def)

lemma chunk_step_start:
  "st_start (chunk_step text chunk_size overlap st) =
     next_start (chunk_end text (st_start st) chunk_size) overlap"
  by (simp add: chunk_step_def Let_def)

lemma chunk_step_chunks:
  "st_chunks (chunk_step text chunk_size overlap st) = st_chunks st \<or>
   (\<exists>c. st_chunks (chunk_step text chunk_size overlap st) = st_chunks st @ [c] \<and>
        ch_text c =
          py_strip (py_slice text (st_start st) (chunk_end text (st_start st) chunk_size)) \<and>
        ch_start c = st_start st \<and>
        ch_end c = chunk_end text (st_start st) chunk_size \<and>
        ch_char_count c = int (length (ch_text c)))"
  by (simp add: chunk_step_def Let_def)

lemma chunk_step_length:
  "length (st_chunks (chunk_step text chunk_size overlap st)) \<le> Suc (length (st_chunks st))"
  by (simp add: chunk_step_def Let_def)

lemma chunk_text_length_bound:
  assumes "0 \<le> start" "1 \<le> chunk_size"
  shows "int (length (py_strip (py_slice text start (chunk_end text start chunk_size))))
           \<le> chunk_size"
proof -
  let ?e = "chunk_end text start chunk_size"
  have e: "start < ?e" "?e \<le> start + chunk_size"
    using assms chunk_end_gt chunk_end_le by auto
  have "int (length (py_slice text start ?e)) \<le> max 0 (?e - start)"
    using assms e by (intro length_py_slice_le) auto
  moreover have "length (py_strip (py_slice text start ?e)) \<le> length (py_slice text start ?e)"
    by (rule length_py_strip_le)
  ultimately show ?thesis using e by linarith
qed

text \<open>The loop keeps the cursor non-negative and every chunk within the size.\<close>

lemma chunk_step_invariant:
  assumes "1 \<le> chunk_size" "0 \<le> st_start st"
    "list_all (chunk_ok text chunk_size) (st_chunks st)"
  shows "0 \<le> st_start (chunk_step text chunk_size overlap st) \<and>
         list_all (chunk_ok text chunk_size) (st_chunks (chunk_step text chunk_size overlap st))"
proof -
  have "0 \<le> chunk_end text (st_start st) chunk_size"
    using chunk_end_gt [of "st_start st" chunk_size "text"] assms by linarith
  then have "0 \<le> st_start (chunk_step text chunk_size overlap st)"
    by (simp add: chunk_step_start next_start_nonneg)
  moreover have
    "list_all (chunk_ok text chunk_size) (st_chunks (chunk_step text chunk_size overlap st))"
    using chunk_step_chunks [of "text" chunk_size overlap st] assms(3)
      chunk_text_length_bound [OF assms(2) assms(1), of "text"]
      chunk_end_le [OF assms(2) assms(1), of "text"]
    by (auto simp: chunk_ok_def)
  ultimately show ?thesis by simp
qed

lemma chunk_run_invariant:
  "1 \<le> chunk_size \<Longrightarrow> 0 \<le> st_start st \<Longrightarrow>
   list_all (chunk_ok text chunk_size) (st_chunks st) \<Longrightarrow>
   list_all (chunk_ok text chunk_size) (st_chunks (chunk_run k text chunk_size overlap st))"
proof (induction k arbitrary: st)
  case 0
  then show ?case by simp
next
  case (Suc k)
  then show ?case using chunk_step_invariant [of chunk_size st "text" overlap] by simp
qed

text \<open>What \<open>chunk_text\<close> returns is the chunk list of the run.\<close>

lemma chunk_loop_run:
  "chunk_loop n text chunk_size overlap st = Some chunks \<Longrightarrow>
   chunks = st_chunks (chunk_run n text chunk_size overlap st)"
proof (induction n arbitrary: st)
  case 0
  then show ?case by simp
next
  case (Suc n)
  then show ?case by (cases "st_start st < int (length text)") auto
qed

lemma chunk_text_run:
  "chunk_text n text chunk_size overlap = Some chunks \<Longrightarrow>
   chunks = st_chunks (chunk_run n text chunk_size overlap chunk_init)"
  unfolding chunk_text_def by (rule chunk_loop_run)

text \<open>
  C10. For every text, every chunk size of at least 1 and every overlap, every chunk
  emitted by \<open>chunk_text\<close>, whether it stands in the list after some number of
  passes of the loop (the loop need not end) or in the list returned, holds the trimmed
  slice from its start to its end offset, its end lies at most \<open>chunk_size\<close> behind
  its start, its text is at most \<open>chunk_size\<close> characters long, and its
  \<open>char_count\<close> is the length of its text.
\<close>

theorem chunk_text_chunk_length:
  assumes "1 \<le> chunk_size"
    and "c \<in> set (st_chunks (chunk_run k text chunk_size overlap chunk_init)) \<or>
         (\<exists>n chunks. chunk_text n text chunk_size overlap = Some chunks \<and> c \<in> set chunks)"
  shows "ch_text c = py_strip (py_slice text (ch_start c) (ch_end c)) \<and>
         ch_end c \<le> ch_start c + chunk_size \<and>
         int (length (ch_text c)) \<le> chunk_size \<and>
         ch_char_count c = int (length (ch_text c))"
proof -
  from assms(2) obtain k' where
    "c \<in> set (st_chunks (chunk_run k' text chunk_size overlap chunk_init))"
    using chunk_text_run by blast
  moreover have "list_all (chunk_ok text chunk_size)
          (st_chunks (chunk_run k' text chunk_size overlap chunk_init))"
    using assms(1) by (intro chunk_run_invariant) (simp_all add: chunk_init_def)
  ultimately have "chunk_ok text chunk_size c"
    by (simp add: list_all_iff)
  then show ?thesis unfolding chunk_ok_def by blast
qed

theorem chunk_text_chunk_length_witness:
  "(1::int) \<le> 20 \<and>
   \<lparr>ch_text = ''Sentence one.'', ch_start = 0, ch_end = 13, ch_chunk_index = 0,
     ch_char_count = 13\<rparr>
     \<in> set (st_chunks
         (chunk_run 1 ''Sentence one. Sentence two. Sentence three.'' 20 5 chunk_init)) \<and>
   int (length ''Sentence one.'') \<le> 20"
proof -
  let ?c = "\<lparr>ch_text = ''Sentence one.'', ch_start = 0, ch_end = 13, ch_chunk_index = 0,
     ch_char_count = 13\<rparr>"
  have m: "?c \<in> set (st_chunks
         (chunk_run 1 ''Sentence one. Sentence two. Sentence three.'' 20 5 chunk_init))"
    by code_simp
  have one: "(1::int) \<le> 20" by simp
  have "int (length (ch_text ?c)) \<le> 20"
    using chunk_text_chunk_length [OF one disjI1, OF m] by blast
  then show ?thesis using one m by simp
qed

subsection \<open>The boundary rule\<close>

text \<open>\<open>rfind\<close> returns the last listed position of the window, or -1.\<close>

lemma rfind_down_positions:
  "rfind_down c s lo k =
     (if positions s c (int lo) (int k) = [] then - 1 else last (positions s c (int lo) (int k)))"
proof (induction k)
  case 0
  then show ?case by (simp add: positions_def)
next
  case (Suc k)
  show ?case
  proof (cases "k < lo")
    case True
    then show ?thesis by (simp add: positions_def)
  next
    case False
    then have "[int lo..int (Suc k) - 1] = [int lo..int k - 1] @ [int k]"
      using upto_rec2 [of "int lo" "int k"] by simp
    then have "positions s c (int lo) (int (Suc k)) =
        positions s c (int lo) (int k) @ (if s ! k = c then [int k] else [])"
      by (simp add: positions_def)
    with False Suc show ?thesis by simp
  qed
qed

lemma rfind_positions:
  assumes "0 \<le> i" "0 \<le> j" "j \<le> int (length s)"
  shows "rfind s c i j = (if positions s c i j = [] then - 1 else last (positions s c i j))"
proof (cases "i \<le> int (length s)")
  case True
  with assms have "slice_index (length s) i = nat i" "slice_index (length s) j = nat j"
    by (simp_all add: slice_index_def)
  then show ?thesis
    using assms rfind_down_positions [of c s "nat i" "nat j"] by (simp add: rfind_def)
next
  case False
  with assms have "positions s c i j = []" by (simp add: positions_def)
  moreover from False assms have "slice_index (length s) i = length s" "slice_index (length s) j = nat j"
    by (simp_all add: slice_index_def)
  moreover have "positions s c (int (length s)) (int (nat j)) = []"
    using assms by (simp add: positions_def)
  ultimately show ?thesis
    using rfind_down_positions [of c s "length s" "nat j"] by (simp add: rfind_def)
qed

lemma positions_ge: "p \<in> set (positions s c lo hi) \<Longrightarrow> lo \<le> p"
  by (simp add: positions_def)

lemma last_positions_ge: "positions s c lo hi \<noteq> [] \<Longrightarrow> lo \<le> last (positions s c lo hi)"
  using positions_ge last_in_set by blast

lemma positions_split:
  "lo < hi \<Longrightarrow> positions s c lo hi =
     (if s ! nat lo = c then [lo] else []) @ positions s c (lo + 1) hi"
  using upto_rec1 [of lo "hi - 1"] by (simp add: positions_def)

lemma rfind_window:
  assumes "0 \<le> start" "1 \<le> chunk_size" "start + chunk_size \<le> int (length s)"
  shows "rfind s c start (start + chunk_size) =
     (if positions s c (start + 1) (start + chunk_size) \<noteq> []
      then last (positions s c (start + 1) (start + chunk_size))
      else if s ! nat start = c then start else - 1)"
proof -
  have "rfind s c start (start + chunk_size) =
      (if positions s c start (start + chunk_size) = [] then - 1
       else last (positions s c start (start + chunk_size)))"
    using assms by (intro rfind_positions) auto
  moreover have "positions s c start (start + chunk_size) =
     (if s ! nat start = c then [start] else []) @ positions s c (start + 1) (start + chunk_size)"
    using assms by (intro positions_split) auto
  ultimately show ?thesis by simp
qed

lemma chunk_end_boundary:
  assumes "0 \<le> start" "1 \<le> chunk_size" "start + chunk_size < int (length text)"
  shows "chunk_end text start chunk_size = boundary_chunk_end text start chunk_size"
proof -
  let ?e = "start + chunk_size"
  let ?P = "positions text (CHR ''.'') (start + 1) ?e"
  let ?N = "positions text (CHR 0x0A) (start + 1) ?e"
  have le: "?e \<le> int (length text)" using assms by simp
  note rp = rfind_window [OF assms(1) assms(2) le, of "CHR ''.''"]
  note rn = rfind_window [OF assms(1) assms(2) le, of "CHR 0x0A"]
  have P: "?P \<noteq> [] \<Longrightarrow> start < last ?P"
    using last_positions_ge [of "text" "CHR ''.''" "start + 1" ?e] by simp
  have N: "?N \<noteq> [] \<Longrightarrow> start < last ?N"
    using last_positions_ge [of "text" "CHR 0x0A" "start + 1" ?e] by simp
  show ?thesis
    using assms P N unfolding chunk_end_def boundary_chunk_end_def Let_def rp rn
    by auto
qed


text \<open>
  C3 (as the code has it). When the candidate end \<open>start + chunk_size\<close> lies inside the text
  (with \<open>start \<ge> 0\<close> and \<open>chunk_size \<ge> 1\<close>), the chunk end is just past the last
  period strictly after \<open>start\<close> and before the candidate end, if there is one and
  it lies after the last such newline; otherwise just past the last newline strictly
  after \<open>start\<close>, if there is one; otherwise the candidate end. A period at
  \<open>start\<close> itself is not a boundary. On the text of the example with chunk size 20
  and overlap 5, the first pass emits \<open>Sentence one.\<close>, ending at offset 13 just
  past the period, and moves the cursor to 13 - 5 = 8.
\<close>

theorem chunk_end_boundary_rule:
  "(0 \<le> start \<and> 1 \<le> chunk_size \<and> start + chunk_size < int (length text) \<longrightarrow>
      chunk_end text start chunk_size = boundary_chunk_end text start chunk_size) \<and>
   chunk_run 1 ''Sentence one. Sentence two. Sentence three.'' 20 5 chunk_init =
     \<lparr>st_start = 8, st_chunk_index = 1,
      st_chunks = [\<lparr>ch_text = ''Sentence one.'', ch_start = 0, ch_end = 13,
                    ch_chunk_index = 0, ch_char_count = 13\<rparr>]\<rparr>"
proof (intro conjI impI)
  assume "0 \<le> start \<and> 1 \<le> chunk_size \<and> start + chunk_size < int (length text)"
  then show "chunk_end text start chunk_size = boundary_chunk_end text start chunk_size"
    by (simp add: chunk_end_boundary)
next
  show "chunk_run 1 ''Sentence one. Sentence two. Sentence three.'' 20 5 chunk_init =
     \<lparr>st_start = 8, st_chunk_index = 1,
      st_chunks = [\<lparr>ch_text = ''Sentence one.'', ch_start = 0, ch_end = 13,
                    ch_chunk_index = 0, ch_char_count = 13\<rparr>]\<rparr>"
    by code_simp
qed

theorem chunk_end_boundary_rule_witness:
  "(0::int) \<le> 8 \<and> (1::int) \<le> 20 \<and>
   8 + 20 < int (length ''Sentence one. Sentence two. Sentence three.'') \<and>
   chunk_end ''Sentence one. Sentence two. Sentence three.'' 8 20 = 27 \<and>
   boundary_chunk_end ''Sentence one. Sentence two. Sentence three.'' 8 20 = 27"
proof -
  let ?t = "''Sentence one. Sentence two. Sentence three.''"
  have h: "(0::int) \<le> 8 \<and> (1::int) \<le> 20 \<and> 8 + 20 < int (length ?t)" by simp
  have e: "chunk_end ?t 8 20 = 27" by code_simp
  have "chunk_end ?t 8 20 = boundary_chunk_end ?t 8 20"
    using chunk_end_boundary_rule [of 8 20 ?t] h by blast
  with e h show ?thesis by simp
qed

text \<open>
  The rule as the specification words it fails where the only period of the window is
  at \<open>start\<close>: the code cuts at the candidate end 5, the wording asks for offset 1.
\<close>

theorem chunk_end_period_at_start_counterexample:
  "(0::int) + 5 < int (length ''.abcdefgh'') \<and>
   chunk_end ''.abcdefgh'' 0 5 = 5 \<and>
   spec_chunk_end ''.abcdefgh'' 0 5 = 1"
  by code_simp

subsection \<open>Termination\<close>

text \<open>
  When every pass moves the cursor forward by at least \<open>d\<close>, the loop ends within
  \<open>n\<close> passes whenever \<open>n * d\<close> covers the text left, and emits at most one
  chunk a pass.
\<close>

lemma chunk_loop_progress:
  assumes d: "0 < d"
    and step: "\<And>s. 0 \<le> s \<Longrightarrow> s < int (length text) \<Longrightarrow>
                 s + d \<le> next_start (chunk_end text s chunk_size) overlap"
  shows "0 \<le> st_start st \<Longrightarrow> int (length text) - st_start st \<le> int n * d \<Longrightarrow>
         \<exists>chunks. chunk_loop (Suc n) text chunk_size overlap st = Some chunks \<and>
                  length chunks \<le> length (st_chunks st) + n"
proof (induction n arbitrary: st)
  case 0
  then show ?case by simp
next
  case (Suc n)
  show ?case
  proof (cases "st_start st < int (length text)")
    case False
    then show ?thesis by simp
  next
    case True
    let ?st = "chunk_step text chunk_size overlap st"
    have adv: "st_start st + d \<le> st_start ?st"
      using step [OF Suc.prems(1) True] by (simp add: chunk_step_start)
    then have nonneg: "0 \<le> st_start ?st" using Suc.prems(1) d by linarith
    have "int (length text) - st_start ?st \<le> int n * d"
    proof -
      have "int (Suc n) * d = int n * d + d" by (simp add: algebra_simps)
      then show ?thesis using Suc.prems(2) adv by linarith
    qed
    from Suc.IH [OF nonneg this] obtain chunks where
      c: "chunk_loop (Suc n) text chunk_size overlap ?st = Some chunks"
         "length chunks \<le> length (st_chunks ?st) + n"
      by blast
    have "length (st_chunks ?st) \<le> Suc (length (st_chunks st))"
      by (rule chunk_step_length)
    with c True show ?thesis by simp
  qed
qed

lemma chunk_end_plain:
  assumes "CHR ''.'' \<notin> set text" "CHR 0x0A \<notin> set text" "0 \<le> start"
  shows "chunk_end text start chunk_size = start + chunk_size"
  using assms by (simp add: chunk_end_def Let_def rfind_absent)

lemma chunk_end_ge2:
  assumes "0 \<le> start" "1 \<le> chunk_size"
  shows "chunk_end text start chunk_size = start + chunk_size \<or>
         start + 2 \<le> chunk_end text start chunk_size"
  by (auto simp: chunk_end_def Let_def)

text \<open>More fuel does not change a result.\<close>

lemma chunk_loop_fuel_mono:
  "chunk_loop n text chunk_size overlap st = Some chunks \<Longrightarrow>
   chunk_loop (n + m) text chunk_size overlap st = Some chunks"
proof (induction n arbitrary: st)
  case 0
  then show ?case by simp
next
  case (Suc n)
  then show ?case by (cases "st_start st < int (length text)") auto
qed

text \<open>
  Where the loop does end, for a chunk size of at least 1 and
  \<open>0 \<le> overlap < chunk_size\<close>: on a text without period and newline every pass
  moves the cursor by \<open>chunk_size - overlap\<close>, and \<open>chunk_text\<close> returns after at
  most \<open>ceil(len(text) / (chunk_size - overlap))\<close> passes, with at most that many
  chunks; on any text, when \<open>overlap \<le> 1\<close>, every pass moves the cursor forward, and
  it returns after at most \<open>len(text)\<close> passes. The update of the cursor is the one
  of \<open>next_start\<close>.
\<close>

lemma chunk_text_terminates_bounded:
  assumes "1 \<le> chunk_size" "0 \<le> overlap" "overlap < chunk_size"
  shows "(CHR ''.'' \<notin> set text \<and> CHR 0x0A \<notin> set text \<longrightarrow>
            (\<exists>chunks. chunk_text (Suc (nat \<lceil>real (length text) / real_of_int (chunk_size - overlap)\<rceil>))
                         text chunk_size overlap = Some chunks \<and>
                      int (length chunks) \<le> \<lceil>real (length text) / real_of_int (chunk_size - overlap)\<rceil>)) \<and>
         (overlap \<le> 1 \<longrightarrow>
            (\<exists>chunks. chunk_text (Suc (length text)) text chunk_size overlap = Some chunks \<and>
                      length chunks \<le> length text)) \<and>
         st_start (chunk_step text chunk_size overlap st) =
           (if chunk_end text (st_start st) chunk_size - overlap < 0
            then chunk_end text (st_start st) chunk_size
            else chunk_end text (st_start st) chunk_size - overlap)"
proof (intro conjI impI)
  assume plain: "CHR ''.'' \<notin> set text \<and> CHR 0x0A \<notin> set text"
  let ?d = "chunk_size - overlap"
  let ?K = "\<lceil>real (length text) / real_of_int ?d\<rceil>"
  have d: "0 < ?d" using assms by simp
  have "0 \<le> real (length text) / real_of_int ?d"
    using d by (intro divide_nonneg_pos) simp_all
  then have K0: "0 \<le> ?K" unfolding zero_le_ceiling by linarith
  have "real (length text) \<le> of_int ?K * real_of_int ?d"
    using d by (intro ceiling_divide_upper) simp
  then have "real_of_int (int (length text)) \<le> real_of_int (?K * ?d)" by simp
  then have "int (length text) \<le> ?K * ?d" by (simp only: of_int_le_iff)
  then have fuel: "int (length text) - st_start chunk_init \<le> int (nat ?K) * ?d"
    using K0 by (simp add: chunk_init_def)
  have step: "\<And>s. 0 \<le> s \<Longrightarrow> s < int (length text) \<Longrightarrow>
                 s + ?d \<le> next_start (chunk_end text s chunk_size) overlap"
    using plain assms by (simp add: chunk_end_plain next_start_def Let_def)
  from chunk_loop_progress [OF d step _ fuel]
  obtain chunks where
    c: "chunk_loop (Suc (nat ?K)) text chunk_size overlap chunk_init = Some chunks" and
    l: "length chunks \<le> length (st_chunks chunk_init) + nat ?K"
    by (auto simp: chunk_init_def)
  from l have "length chunks \<le> nat ?K" by (simp add: chunk_init_def)
  with K0 have "int (length chunks) \<le> ?K" by linarith
  with c show "\<exists>chunks. chunk_text (Suc (nat ?K)) text chunk_size overlap = Some chunks \<and>
                      int (length chunks) \<le> ?K"
    unfolding chunk_text_def by blast
next
  assume ov: "overlap \<le> 1"
  have step: "\<And>s. 0 \<le> s \<Longrightarrow> s < int (length text) \<Longrightarrow>
                 s + 1 \<le> next_start (chunk_end text s chunk_size) overlap"
  proof -
    fix s :: int assume s: "0 \<le> s"
    from chunk_end_ge2 [OF s assms(1), of "text"]
    show "s + 1 \<le> next_start (chunk_end text s chunk_size) overlap"
      using assms ov s by (auto simp: next_start_def Let_def)
  qed
  have fuel: "int (length text) - st_start chunk_init \<le> int (length text) * 1"
    by (simp add: chunk_init_def)
  from chunk_loop_progress [OF _ step _ fuel]
  obtain chunks where
    c: "chunk_loop (Suc (length text)) text chunk_size overlap chunk_init = Some chunks" and
    l: "length chunks \<le> length (st_chunks chunk_init) + length text"
    by (auto simp: chunk_init_def)
  from l have "length chunks \<le> length text" by (simp add: chunk_init_def)
  with c show "\<exists>chunks. chunk_text (Suc (length text)) text chunk_size overlap = Some chunks \<and>
                      length chunks \<le> length text"
    unfolding chunk_text_def by blast
next
  show "st_start (chunk_step text chunk_size overlap st) =
           (if chunk_end text (st_start st) chunk_size - overlap < 0
            then chunk_end text (st_start st) chunk_size
            else chunk_end text (st_start st) chunk_size - overlap)"
    by (simp add: chunk_step_start next_start_def Let_def)
qed


lemma chunk_text_terminates_bounded_example:
  "(1::int) \<le> 4 \<and> (0::int) \<le> 1 \<and> (1::int) < 4 \<and>
   CHR ''.'' \<notin> set ''abcdefghij'' \<and> CHR 0x0A \<notin> set ''abcdefghij'' \<and>
   (\<exists>chunks. chunk_text (Suc (nat \<lceil>real (length ''abcdefghij'') / real_of_int (4 - 1)\<rceil>))
               ''abcdefghij'' 4 1 = Some chunks \<and>
             int (length chunks) \<le> \<lceil>real (length ''abcdefghij'') / real_of_int (4 - 1)\<rceil>) \<and>
   (\<exists>chunks. chunk_text (Suc (length ''abcdefghij'')) ''abcdefghij'' 4 1 = Some chunks \<and>
             length chunks \<le> length ''abcdefghij'')"
proof -
  have h: "(1::int) \<le> 4" "(0::int) \<le> 1" "(1::int) < 4" by simp_all
  have p: "CHR ''.'' \<notin> set ''abcdefghij'' \<and> CHR 0x0A \<notin> set ''abcdefghij''" by simp
  have o: "(1::int) \<le> 1" by simp
  note t = chunk_text_terminates_bounded [OF h, of "''abcdefghij''" chunk_init]
  from t p have a: "\<exists>chunks.
      chunk_text (Suc (nat \<lceil>real (length ''abcdefghij'') / real_of_int (4 - 1)\<rceil>))
        ''abcdefghij'' 4 1 = Some chunks \<and>
      int (length chunks) \<le> \<lceil>real (length ''abcdefghij'') / real_of_int (4 - 1)\<rceil>"
    by blast
  from t o have b: "\<exists>chunks.
      chunk_text (Suc (length ''abcdefghij'')) ''abcdefghij'' 4 1 = Some chunks \<and>
      length chunks \<le> length ''abcdefghij''"
    by blast
  from h p a b show ?thesis by blast
qed

text \<open>
  The bound of the specification fails where the boundary rule shortens the chunks: the
  text below has 8 characters, the chunk size is 3 and the overlap 0, so the bound is 3,
  and \<open>chunk_text\<close> returns 4 chunks. It fails on the text of the example as well,
  where the bound is 3 and four passes emit four chunks without ending the loop.
\<close>

lemma chunk_text_bound_exceeded:
  "chunk_text 5 ''a.a.a.a.'' 3 0 = Some
     [\<lparr>ch_text = ''a.'', ch_start = 0, ch_end = 2, ch_chunk_index = 0, ch_char_count = 2\<rparr>,
      \<lparr>ch_text = ''a.'', ch_start = 2, ch_end = 4, ch_chunk_index = 1, ch_char_count = 2\<rparr>,
      \<lparr>ch_text = ''a.'', ch_start = 4, ch_end = 6, ch_chunk_index = 2, ch_char_count = 2\<rparr>,
      \<lparr>ch_text = ''a.'', ch_start = 6, ch_end = 9, ch_chunk_index = 3, ch_char_count = 2\<rparr>] \<and>
   \<lceil>real (length ''a.a.a.a.'') / real_of_int (3 - 0)\<rceil> = 3 \<and>
   chunk_text 4 ''Sentence one. Sentence two. Sentence three.'' 20 5 = None \<and>
   length (st_chunks
     (chunk_run 4 ''Sentence one. Sentence two. Sentence three.'' 20 5 chunk_init)) = 4 \<and>
   \<lceil>real (length ''Sentence one. Sentence two. Sentence three.'') / real_of_int (20 - 5)\<rceil> = 3"
proof (intro conjI)
  show "\<lceil>real (length ''a.a.a.a.'') / real_of_int (3 - 0)\<rceil> = 3"
    by (simp add: ceiling_divide_eq_div)
  show "\<lceil>real (length ''Sentence one. Sentence two. Sentence three.'') /
          real_of_int (20 - 5)\<rceil> = 3"
    by (simp add: ceiling_divide_eq_div)
qed code_simp+

text \<open>
  The chunk ends on the text of the example, with chunk size 20, at the cursors 0, 8
  and 22; from cursor 22 the loop does not end.
\<close>

lemma example_chunk_ends: "chunk_end ''Sentence one. Sentence two. Sentence three.'' 0 20 = 13"
  "chunk_end ''Sentence one. Sentence two. Sentence three.'' 8 20 = 27"
  "chunk_end ''Sentence one. Sentence two. Sentence three.'' 22 20 = 27"
  by code_simp+

lemma example_cycle:
  "st_start st = 22 \<Longrightarrow>
   chunk_loop n ''Sentence one. Sentence two. Sentence three.'' 20 5 st = None"
proof (induction n arbitrary: st)
  case 0
  then show ?case by simp
next
  case (Suc n)
  have "st_start (chunk_step ''Sentence one. Sentence two. Sentence three.'' 20 5 st) = 22"
    using Suc.prems by (simp add: chunk_step_start example_chunk_ends next_start_def)
  from Suc.IH [OF this] Suc.prems show ?case by simp
qed

lemma chunk_text_example_loops:
  "chunk_text n ''Sentence one. Sentence two. Sentence three.'' 20 5 = None"
proof (cases n)
  case 0
  then show ?thesis by (simp add: chunk_text_def)
next
  case (Suc m)
  note n = this
  show ?thesis
  proof (cases m)
    case 0
    with n show ?thesis by (simp add: chunk_text_def chunk_init_def)
  next
    case (Suc k)
    let ?t = "''Sentence one. Sentence two. Sentence three.''"
    have "st_start (chunk_step ?t 20 5 (chunk_step ?t 20 5 chunk_init)) = 22"
      by (simp add: chunk_step_start example_chunk_ends next_start_def chunk_init_def)
    from example_cycle [OF this, of k] n Suc show ?thesis
      by (simp add: chunk_text_def chunk_init_def chunk_step_start example_chunk_ends next_start_def)
  qed
qed

text \<open>
  C1. On the text of the example of the specification, with chunk size 20 and overlap 5
  (so \<open>0 \<le> overlap < chunk_size\<close>), \<open>chunk_text\<close> does not terminate: no amount
  of fuel gives a result. The cursor goes 0, 8, 22, 22, 22, ...: the third pass ends at
  offset 27, just past the period at 26, and \<open>end - overlap\<close> is 22 again, which is
  not negative, so the fallback to \<open>end\<close> is not taken and the cursor does not move
  forward.
\<close>

theorem chunk_text_example_never_returns:
  "chunk_text n ''Sentence one. Sentence two. Sentence three.'' 20 5 = None \<and>
   map (\<lambda>k. st_start
          (chunk_run k ''Sentence one. Sentence two. Sentence three.'' 20 5 chunk_init))
     [0, 1, 2, 3, 4] = [0, 8, 22, 22, 22]"
proof
  show "chunk_text n ''Sentence one. Sentence two. Sentence three.'' 20 5 = None"
    by (rule chunk_text_example_loops)
  show "map (\<lambda>k. st_start
          (chunk_run k ''Sentence one. Sentence two. Sentence three.'' 20 5 chunk_init))
     [0, 1, 2, 3, 4] = [0, 8, 22, 22, 22]"
    by code_simp
qed


text \<open>
  C2. A text of 18 characters, shorter than the chunk size 20, with overlap 5: the first
  pass reaches the end of the text and emits the whole text, but the loop goes on, since
  the cursor moves to 20 - 5 = 15, and a second pass emits the last three characters
  again. \<open>chunk_text\<close> returns two chunks.
\<close>

theorem chunk_text_short_text_two_chunks:
  "int (length ''abcdefghijklmnopqr'') < 20 \<and>
   chunk_text 3 ''abcdefghijklmnopqr'' 20 5 = Some
     [\<lparr>ch_text = ''abcdefghijklmnopqr'', ch_start = 0, ch_end = 20, ch_chunk_index = 0,
       ch_char_count = 18\<rparr>,
      \<lparr>ch_text = ''pqr'', ch_start = 15, ch_end = 35, ch_chunk_index = 1,
       ch_char_count = 3\<rparr>]"
  by code_simp


section \<open>Properties of text cleaning\<close>

text \<open>
  The first substitution leaves no whitespace but single spaces, so the second one finds
  no newline to match and changes nothing.
\<close>

lemma sub_whitespace_spaces:
  "c \<in> set (sub_whitespace t) \<Longrightarrow> isspace c \<Longrightarrow> c = CHR '' ''"
proof (induction t rule: sub_whitespace.induct)
  case 1
  then show ?case by simp
next
  case (2 d ds)
  then show ?case by (cases "isspace d") auto
qed

lemma isspace_newline: "isspace (CHR 0x0A)"
  by (simp add: isspace_def)

lemma sub_whitespace_no_newline: "CHR 0x0A \<notin> set (sub_whitespace t)"
  using sub_whitespace_spaces [of "CHR 0x0A" t] isspace_newline by auto

lemma sub_blank_lines_id: "CHR 0x0A \<notin> set s \<Longrightarrow> sub_blank_lines s = s"
  by (induction s) auto

lemma set_py_strip: "set (py_strip s) \<subseteq> set s"
proof
  fix c assume "c \<in> set (py_strip s)"
  then have "c \<in> set (dropWhile isspace (rev (dropWhile isspace s)))"
    by (simp add: py_strip_def)
  then have "c \<in> set (rev (dropWhile isspace s))" by (rule set_dropWhileD)
  then have "c \<in> set (dropWhile isspace s)" by simp
  then show "c \<in> set s" by (rule set_dropWhileD)
qed

lemma clean_text_eq: "clean_text t = py_strip (sub_whitespace t)"
proof (cases "t = []")
  case True
  then show ?thesis by (simp add: clean_text_def py_strip_def)
next
  case False
  have "sub_blank_lines (sub_whitespace t) = sub_whitespace t"
    by (rule sub_blank_lines_id) (rule sub_whitespace_no_newline)
  with False show ?thesis by (simp add: clean_text_def)
qed

lemma clean_text_no_newline: "CHR 0x0A \<notin> set (clean_text t)"
  using set_py_strip [of "sub_whitespace t"] sub_whitespace_no_newline [of t]
  unfolding clean_text_eq by blast


text \<open>
  C4. On a text with a run of three newlines between two letters, \<open>clean_text\<close>
  returns the letters separated by one space: the run of blank lines is not kept as one
  blank line, and the result holds no newline.
\<close>

theorem clean_text_blank_lines:
  "clean_text [CHR ''a'', CHR 0x0A, CHR 0x0A, CHR 0x0A, CHR ''b''] = ''a b''"
  by code_simp

section \<open>Properties of the extractor\<close>

lemma extract_pages_Inl:
  "(\<exists>e. extract_pages n ps = Inl e) \<longleftrightarrow>
   list_ex (\<lambda>p. case p of PageRaises e \<Rightarrow> True | PageText t \<Rightarrow> False) ps"
proof (induction ps arbitrary: n)
  case Nil
  then show ?case by simp
next
  case (Cons p ps)
  show ?case
  proof (cases p)
    case (PageRaises e)
    then show ?thesis by simp
  next
    case (PageText t)
    then show ?thesis using Cons.IH [of "n + 1"]
      by (cases "extract_pages (n + 1) ps") (auto split: option.splits)
  qed
qed

lemma extract_pages_empty:
  "extract_pages n ps = Inr pages_info \<Longrightarrow>
   pages_info = [] \<longleftrightarrow>
     list_all (\<lambda>p. case p of PageRaises e \<Rightarrow> False | PageText t \<Rightarrow> t = None \<or> t = Some []) ps"
proof (induction ps arbitrary: n pages_info)
  case Nil
  then show ?case by simp
next
  case (Cons p ps)
  show ?case
  proof (cases p)
    case (PageRaises e)
    with Cons.prems show ?thesis by simp
  next
    case (PageText t)
    with Cons.prems obtain rest where r: "extract_pages (n + 1) ps = Inr rest"
      by (cases "extract_pages (n + 1) ps") auto
    from Cons.IH [OF r] Cons.prems PageText r show ?thesis
      by (auto split: option.splits if_splits)
  qed
qed


text \<open>
  C5 (as the code has it). \<open>extract_text_from_pdf\<close> returns \<open>None\<close> exactly when reading
  fails (opening the file or extracting a page raises) or when no page yields text, the
  same value in both cases; it prints an error line exactly when reading fails, and that
  line is the only thing that tells the two outcomes apart.
\<close>

theorem extract_text_outcomes:
  "(snd (extract_text_from_pdf file_path filename rd) = None \<longleftrightarrow> read_fails rd \<or> no_page_text rd) \<and>
   (fst (extract_text_from_pdf file_path filename rd) \<noteq> [] \<longleftrightarrow> read_fails rd)"
proof (cases rd)
  case (OpenRaises e)
  then show ?thesis by (simp add: extract_text_from_pdf_def)
next
  case (Opened ps)
  show ?thesis
  proof (cases "extract_pages 1 ps")
    case (Inl e)
    then have "read_fails rd" using extract_pages_Inl [of 1 ps] Opened by auto
    with Inl Opened show ?thesis by (simp add: extract_text_from_pdf_def)
  next
    case (Inr pages_info)
    then have "\<not> read_fails rd" using extract_pages_Inl [of 1 ps] Opened by auto
    with Inr Opened extract_pages_empty [OF Inr] show ?thesis
      by (simp add: extract_text_from_pdf_def Let_def)
  qed
qed


text \<open>An unreadable file and a readable one without text give the same return value.\<close>

theorem extract_text_conflated_counterexample:
  "snd (extract_text_from_pdf ''a.pdf'' ''a.pdf'' (OpenRaises ''unreadable'')) = None \<and>
   snd (extract_text_from_pdf ''a.pdf'' ''a.pdf'' (Opened [PageText None])) = None \<and>
   read_fails (OpenRaises ''unreadable'') \<and> \<not> no_page_text (OpenRaises ''unreadable'') \<and>
   \<not> read_fails (Opened [PageText None]) \<and> no_page_text (Opened [PageText None])"
  by (simp add: extract_text_from_pdf_def)

section \<open>Properties of page resolution\<close>

lemma running_total_0: "running_total (p # ps) 0 = pg_char_count p + 2"
  by (simp add: running_total_def)

lemma running_total_Suc: "running_total (p # ps) (Suc k) = pg_char_count p + 2 + running_total ps k"
  by (simp add: running_total_def)

lemma page_walk_found:
  "k < length pages \<Longrightarrow> position < cur + running_total pages k \<Longrightarrow>
   (\<And>j. j < k \<Longrightarrow> cur + running_total pages j \<le> position) \<Longrightarrow>
   page_walk position cur pages = Some (pg_page (pages ! k))"
proof (induction pages arbitrary: cur k)
  case Nil
  then show ?case by simp
next
  case (Cons p ps)
  show ?case
  proof (cases k)
    case 0
    with Cons.prems show ?thesis by (simp add: running_total_0 Let_def)
  next
    case (Suc k')
    have "cur + running_total (p # ps) 0 \<le> position"
      using Cons.prems(3) [of 0] Suc by simp
    then have nf: "\<not> position < cur + (pg_char_count p + 2)" by (simp add: running_total_0)
    have "page_walk position (cur + (pg_char_count p + 2)) ps = Some (pg_page (ps ! k'))"
    proof (rule Cons.IH)
      show "k' < length ps" using Cons.prems(1) Suc by simp
      show "position < cur + (pg_char_count p + 2) + running_total ps k'"
        using Cons.prems(2) Suc by (simp add: running_total_Suc)
      fix j assume "j < k'"
      then have "cur + running_total (p # ps) (Suc j) \<le> position"
        using Cons.prems(3) [of "Suc j"] Suc by simp
      then show "cur + (pg_char_count p + 2) + running_total ps j \<le> position"
        by (simp add: running_total_Suc)
    qed
    with nf Suc show ?thesis by (simp add: Let_def)
  qed
qed

lemma page_walk_none:
  "(\<And>j. j < length pages \<Longrightarrow> cur + running_total pages j \<le> position) \<Longrightarrow>
   page_walk position cur pages = None"
proof (induction pages arbitrary: cur)
  case Nil
  then show ?case by simp
next
  case (Cons p ps)
  have "cur + running_total (p # ps) 0 \<le> position" using Cons.prems [of 0] by simp
  then have nf: "\<not> position < cur + (pg_char_count p + 2)" by (simp add: running_total_0)
  have "page_walk position (cur + (pg_char_count p + 2)) ps = None"
  proof (rule Cons.IH)
    fix j assume "j < length ps"
    then have "cur + running_total (p # ps) (Suc j) \<le> position"
      using Cons.prems [of "Suc j"] by simp
    then show "cur + (pg_char_count p + 2) + running_total ps j \<le> position"
      by (simp add: running_total_Suc)
  qed
  with nf show ?case by (simp add: Let_def)
qed

lemma running_total_mono:
  "(\<And>p. p \<in> set pages \<Longrightarrow> 0 \<le> pg_char_count p) \<Longrightarrow> j < length pages \<Longrightarrow>
   running_total pages j \<le> (\<Sum>p\<leftarrow>pages. pg_char_count p + 2)"
proof (induction pages arbitrary: j)
  case Nil
  then show ?case by simp
next
  case (Cons p ps)
  show ?case
  proof (cases j)
    case 0
    have "0 \<le> (\<Sum>p\<leftarrow>ps. pg_char_count p + 2)"
      using Cons.prems(1) by (intro sum_list_nonneg) auto
    with 0 show ?thesis by (simp add: running_total_0)
  next
    case (Suc j')
    then have "running_total ps j' \<le> (\<Sum>p\<leftarrow>ps. pg_char_count p + 2)"
      using Cons.prems by (intro Cons.IH) auto
    with Suc show ?thesis by (simp add: running_total_Suc)
  qed
qed


text \<open>
  C6 (as the code has it). \<open>_get_page_for_position\<close> returns the number of the first page
  whose running total of \<open>char_count + 2\<close> exceeds the offset. For a non-empty page
  list (with a non-negative count on its first page) offset 0 resolves to the number of
  the first listed page, which is 1 only when the first page of the document is listed.
  An offset that no running total exceeds, in particular one at or past the sum of all
  \<open>char_count + 2\<close> when the counts are non-negative, resolves to the number of the
  last listed page; with an empty page list the result is 1.
\<close>

theorem get_page_for_position_rule:
  "(k < length pages \<and> position < running_total pages k \<and>
      (\<forall>j<k. running_total pages j \<le> position) \<longrightarrow>
        get_page_for_position position pages = pg_page (pages ! k)) \<and>
   (pages \<noteq> [] \<and> 0 \<le> pg_char_count (hd pages) \<longrightarrow>
        get_page_for_position 0 pages = pg_page (hd pages)) \<and>
   (pages \<noteq> [] \<and> (\<forall>j<length pages. running_total pages j \<le> position) \<longrightarrow>
        get_page_for_position position pages = pg_page (last pages)) \<and>
   (pages \<noteq> [] \<and> (\<forall>p\<in>set pages. 0 \<le> pg_char_count p) \<and>
      (\<Sum>p\<leftarrow>pages. pg_char_count p + 2) \<le> position \<longrightarrow>
        get_page_for_position position pages = pg_page (last pages)) \<and>
   get_page_for_position position [] = 1"
proof (intro conjI impI)
  assume a: "k < length pages \<and> position < running_total pages k \<and>
      (\<forall>j<k. running_total pages j \<le> position)"
  then have "page_walk position 0 pages = Some (pg_page (pages ! k))"
    by (intro page_walk_found) auto
  then show "get_page_for_position position pages = pg_page (pages ! k)"
    by (simp add: get_page_for_position_def)
next
  assume a: "pages \<noteq> [] \<and> 0 \<le> pg_char_count (hd pages)"
  then obtain p ps where p: "pages = p # ps" by (cases pages) auto
  with a show "get_page_for_position 0 pages = pg_page (hd pages)"
    by (simp add: get_page_for_position_def Let_def)
next
  assume a: "pages \<noteq> [] \<and> (\<forall>j<length pages. running_total pages j \<le> position)"
  then have "page_walk position 0 pages = None"
    by (intro page_walk_none) auto
  with a show "get_page_for_position position pages = pg_page (last pages)"
    by (simp add: get_page_for_position_def)
next
  assume a: "pages \<noteq> [] \<and> (\<forall>p\<in>set pages. 0 \<le> pg_char_count p) \<and>
      (\<Sum>p\<leftarrow>pages. pg_char_count p + 2) \<le> position"
  have "page_walk position 0 pages = None"
  proof (rule page_walk_none)
    fix j assume "j < length pages"
    then have "running_total pages j \<le> (\<Sum>p\<leftarrow>pages. pg_char_count p + 2)"
      using a by (intro running_total_mono) auto
    with a show "0 + running_total pages j \<le> position" by simp
  qed
  with a show "get_page_for_position position pages = pg_page (last pages)"
    by (simp add: get_page_for_position_def)
next
  show "get_page_for_position position [] = 1"
    by (simp add: get_page_for_position_def)
qed

theorem get_page_for_position_rule_witness:
  "get_page_for_position 6
     [\<lparr>pg_page = 1, pg_text = ''abcd'', pg_char_count = 4\<rparr>,
      \<lparr>pg_page = 3, pg_text = ''e'', pg_char_count = 1\<rparr>] = 3 \<and>
   get_page_for_position 0
     [\<lparr>pg_page = 1, pg_text = ''abcd'', pg_char_count = 4\<rparr>,
      \<lparr>pg_page = 3, pg_text = ''e'', pg_char_count = 1\<rparr>] = 1 \<and>
   get_page_for_position 9
     [\<lparr>pg_page = 1, pg_text = ''abcd'', pg_char_count = 4\<rparr>,
      \<lparr>pg_page = 3, pg_text = ''e'', pg_char_count = 1\<rparr>] = 3 \<and>
   running_total
     [\<lparr>pg_page = 1, pg_text = ''abcd'', pg_char_count = 4\<rparr>,
      \<lparr>pg_page = 3, pg_text = ''e'', pg_char_count = 1\<rparr>] 0 = 6 \<and>
   running_total
     [\<lparr>pg_page = 1, pg_text = ''abcd'', pg_char_count = 4\<rparr>,
      \<lparr>pg_page = 3, pg_text = ''e'', pg_char_count = 1\<rparr>] 1 = 9"
proof -
  let ?ps = "[\<lparr>pg_page = 1, pg_text = ''abcd'', pg_char_count = 4\<rparr>,
      \<lparr>pg_page = 3, pg_text = ''e'', pg_char_count = 1\<rparr>]"
  have r: "running_total ?ps 0 = 6" "running_total ?ps 1 = 9"
    by (simp_all add: running_total_def)
  have h1: "1 < length ?ps \<and> 6 < running_total ?ps 1 \<and> (\<forall>j<1. running_total ?ps j \<le> 6)"
    using r by simp
  have h2: "?ps \<noteq> [] \<and> 0 \<le> pg_char_count (hd ?ps)" by simp
  have h3: "?ps \<noteq> [] \<and> (\<forall>p\<in>set ?ps. 0 \<le> pg_char_count p) \<and>
      (\<Sum>p\<leftarrow>?ps. pg_char_count p + 2) \<le> 9" by simp
  have a: "get_page_for_position 6 ?ps = pg_page (?ps ! 1)"
    using get_page_for_position_rule [of 1 ?ps 6] h1 by blast
  have b: "get_page_for_position 0 ?ps = pg_page (hd ?ps)"
    using get_page_for_position_rule [of 1 ?ps 6] h2 by blast
  have c: "get_page_for_position 9 ?ps = pg_page (last ?ps)"
    using get_page_for_position_rule [of 1 ?ps 9] h3 by blast
  from a b c r show ?thesis by simp
qed

text \<open>
  A document whose first page yields no text lists page 2 first, and offset 0 resolves
  to page 2.
\<close>

theorem get_page_for_position_counterexample:
  "map_option doc_pages
     (snd (extract_text_from_pdf ''a.pdf'' ''a.pdf''
        (Opened [PageText None, PageText (Some ''abc'')]))) =
     Some [\<lparr>pg_page = 2, pg_text = ''abc'', pg_char_count = 3\<rparr>] \<and>
   get_page_for_position 0 [\<lparr>pg_page = 2, pg_text = ''abc'', pg_char_count = 3\<rparr>] = 2"
  by code_simp


section \<open>Properties of integer rendering\<close>

text \<open>\<open>str\<close> of an integer is made of digits and a sign, and is injective.\<close>

lemma str_nat_nonempty: "str_nat n \<noteq> []"
  by (subst str_nat.simps) simp

lemma digit_char_code: "d < 10 \<Longrightarrow> (of_char (char_of (48 + d :: nat)) :: nat) = 48 + d"
  by simp

lemma str_nat_digits:
  "c \<in> set (str_nat n) \<Longrightarrow> 48 \<le> (of_char c :: nat) \<and> (of_char c :: nat) \<le> 57"
proof (induction n rule: str_nat.induct)
  case (1 n)
  show ?case
  proof (cases "n < 10")
    case True
    with "1.prems" have "c = char_of (48 + n)" by (subst (asm) str_nat.simps) simp
    with True show ?thesis by (simp add: digit_char_code)
  next
    case False
    with "1.prems" have "c \<in> set (str_nat (n div 10)) \<or> c = char_of (48 + n mod 10)"
      by (subst (asm) str_nat.simps) auto
    then show ?thesis
    proof
      assume "c \<in> set (str_nat (n div 10))"
      with False "1.IH" show ?thesis by simp
    next
      assume "c = char_of (48 + n mod 10)"
      then show ?thesis by (simp add: digit_char_code)
    qed
  qed
qed

lemma str_nat_inj: "str_nat n = str_nat m \<Longrightarrow> n = m"
proof (induction n arbitrary: m rule: str_nat.induct)
  case (1 n)
  show ?case
  proof (cases "n < 10")
    case n: True
    show ?thesis
    proof (cases "m < 10")
      case True
      with n "1.prems" have "char_of (48 + n) = (char_of (48 + m) :: char)"
        by (simp add: str_nat.simps [of n] str_nat.simps [of m])
      then have "(of_char (char_of (48 + n) :: char) :: nat) = of_char (char_of (48 + m) :: char)"
        by simp
      with n True show ?thesis by (simp add: digit_char_code)
    next
      case False
      with n "1.prems" show ?thesis
        using str_nat_nonempty [of "m div 10"]
        by (simp add: str_nat.simps [of n] str_nat.simps [of m])
    qed
  next
    case n: False
    show ?thesis
    proof (cases "m < 10")
      case True
      with n "1.prems" show ?thesis
        using str_nat_nonempty [of "n div 10"]
        by (simp add: str_nat.simps [of n] str_nat.simps [of m])
    next
      case False
      with n "1.prems" have e: "str_nat (n div 10) = str_nat (m div 10)"
        and c: "char_of (48 + n mod 10) = (char_of (48 + m mod 10) :: char)"
        by (simp_all add: str_nat.simps [of n] str_nat.simps [of m])
      from "1.IH" [OF n e] have d: "n div 10 = m div 10" .
      from c have "(of_char (char_of (48 + n mod 10) :: char) :: nat) =
          of_char (char_of (48 + m mod 10) :: char)" by simp
      then have "n mod 10 = m mod 10" by (simp add: digit_char_code)
      with d show ?thesis by (metis div_mult_mod_eq)
    qed
  qed
qed

lemma str_int_chars:
  "c \<in> set (str_int i) \<Longrightarrow> c = CHR ''-'' \<or> (48 \<le> (of_char c :: nat) \<and> (of_char c :: nat) \<le> 57)"
  using str_nat_digits by (auto simp: str_int_def split: if_splits)

lemma str_int_inj: "str_int i = str_int j \<Longrightarrow> i = j"
proof -
  assume e: "str_int i = str_int j"
  have hd_digit: "\<And>n. hd (str_nat n) \<noteq> CHR ''-''"
  proof
    fix n assume h: "hd (str_nat n) = CHR ''-''"
    have "hd (str_nat n) \<in> set (str_nat n)" using str_nat_nonempty by simp
    from str_nat_digits [OF this] h show False by simp
  qed
  have neq: "\<And>n m. CHR ''-'' # str_nat n \<noteq> str_nat m"
  proof
    fix n m assume "CHR ''-'' # str_nat n = str_nat m"
    then have "hd (str_nat m) = CHR ''-''" by (metis list.sel(1))
    with hd_digit show False by blast
  qed
  show "i = j"
  proof (cases "i < 0")
    case i: True
    show ?thesis
    proof (cases "j < 0")
      case True
      with i e have "str_nat (nat (- i)) = str_nat (nat (- j))" by (simp add: str_int_def)
      then have "nat (- i) = nat (- j)" by (rule str_nat_inj)
      with i True show ?thesis by simp
    next
      case False
      with i e neq show ?thesis by (simp add: str_int_def)
    qed
  next
    case i: False
    show ?thesis
    proof (cases "j < 0")
      case True
      with i e neq [of "nat (- j)" "nat i"] show ?thesis by (simp add: str_int_def)
    next
      case False
      with i e have "str_nat (nat i) = str_nat (nat j)" by (simp add: str_int_def)
      then have "nat i = nat j" by (rule str_nat_inj)
      with i False show ?thesis by simp
    qed
  qed
qed


section \<open>Properties of the retriever\<close>

text \<open>
  The string key \<open>source_p<page>\<close> identifies the pair of source and page: the
  rendering of a page holds no \<open>p\<close>, so the last \<open>_p\<close> of a key is the separator.
\<close>

lemma result_page_no_p: "CHR ''p'' \<notin> set (py_str (result_page r))"
proof (cases "md_page (sr_metadata r)")
  case None
  then show ?thesis by (simp add: result_page_def)
next
  case (Some n)
  have "CHR ''p'' \<notin> set (str_int n)"
    using str_int_chars [of "CHR ''p''" n] by auto
  with Some show ?thesis by (simp add: result_page_def)
qed

lemma result_page_inj:
  "py_str (result_page r) = py_str (result_page r') \<Longrightarrow> result_page r = result_page r'"
proof -
  assume e: "py_str (result_page r) = py_str (result_page r')"
  have na: "\<And>n. str_int n \<noteq> ''N/A''"
  proof
    fix n assume "str_int n = ''N/A''"
    then have "CHR ''N'' \<in> set (str_int n)" by simp
    from str_int_chars [OF this] show False by simp
  qed
  show ?thesis
  proof (cases "md_page (sr_metadata r)")
    case None
    then show ?thesis using e na
      by (cases "md_page (sr_metadata r')") (auto simp: result_page_def)
  next
    case (Some n)
    then show ?thesis using e na str_int_inj
      by (cases "md_page (sr_metadata r')") (auto simp: result_page_def)
  qed
qed

lemma key_suffix:
  assumes "s @ ''_p'' @ d = s' @ ''_p'' @ d'" "CHR ''p'' \<notin> set d" "CHR ''p'' \<notin> set d'"
  shows "s = s' \<and> d = d'"
proof -
  from assms(1) have "(s @ ''_p'') @ d = (s' @ ''_p'') @ d'" by simp
  then obtain us where us:
    "(s @ ''_p'' = (s' @ ''_p'') @ us \<and> us @ d = d') \<or> ((s @ ''_p'') @ us = s' @ ''_p'' \<and> d = us @ d')"
    unfolding append_eq_append_conv2 by blast
  have "us = []"
  proof (rule ccontr)
    assume ne: "us \<noteq> []"
    from us show False
    proof
      assume a: "s @ ''_p'' = (s' @ ''_p'') @ us \<and> us @ d = d'"
      then have "last (s @ ''_p'') = last us" using ne by simp
      then have "last us = CHR ''p''" by simp
      then have "CHR ''p'' \<in> set us" using ne last_in_set by metis
      with a assms(3) show False by auto
    next
      assume a: "(s @ ''_p'') @ us = s' @ ''_p'' \<and> d = us @ d'"
      then have "last (s' @ ''_p'') = last us" using ne by (metis last_appendR)
      then have "last us = CHR ''p''" by simp
      then have "CHR ''p'' \<in> set us" using ne last_in_set by metis
      with a assms(2) show False by auto
    qed
  qed
  with us show ?thesis by auto
qed

lemma source_key_inj:
  "source_key (result_source r) (result_page r) = source_key (result_source r') (result_page r')
     \<longleftrightarrow> source_page r = source_page r'"
proof
  assume "source_key (result_source r) (result_page r) =
      source_key (result_source r') (result_page r')"
  then have "result_source r @ ''_p'' @ py_str (result_page r) =
      result_source r' @ ''_p'' @ py_str (result_page r')"
    by (simp add: source_key_def)
  from key_suffix [OF this result_page_no_p result_page_no_p]
  show "source_page r = source_page r'"
    using result_page_inj by (simp add: source_page_def)
next
  assume "source_page r = source_page r'"
  then show "source_key (result_source r) (result_page r) =
      source_key (result_source r') (result_page r')"
    by (simp add: source_page_def)
qed

lemma query_step_parts:
  "q_context_parts (query_step i r st) = q_context_parts st @ [context_part i (sr_text r)]"
  by (simp add: query_step_def Let_def)

lemma query_loop_parts:
  "q_context_parts (query_loop i rs st) =
     q_context_parts st @ map (\<lambda>k. context_part (i + int k) (sr_text (rs ! k))) [0..<length rs]"
proof (induction rs arbitrary: i st)
  case Nil
  then show ?case by simp
next
  case (Cons r rs)
  have "map (\<lambda>k. context_part (i + int k) (sr_text ((r # rs) ! k))) [0..<length (r # rs)] =
      context_part i (sr_text r) #
        map (\<lambda>k. context_part (i + 1 + int k) (sr_text (rs ! k))) [0..<length rs]"
    by (simp add: upt_conv_Cons map_Suc_upt [symmetric] ac_simps del: upt_Suc)
  with Cons.IH [of "i + 1" "query_step i r st"] show ?case
    by (simp add: query_step_parts)
qed

text \<open>The indices of first occurrences, when a head is put before the list.\<close>

lemma first_filter_Cons:
  "filter (\<lambda>k. f ((x # xs) ! k) \<notin> S \<and> (\<forall>j<k. f ((x # xs) ! j) \<noteq> f ((x # xs) ! k))) [0..<length (x # xs)] =
   (if f x \<notin> S then [0] else []) @
   map Suc (filter (\<lambda>k. f (xs ! k) \<notin> insert (f x) S \<and> (\<forall>j<k. f (xs ! j) \<noteq> f (xs ! k))) [0..<length xs])"
proof -
  have split: "[0..<length (x # xs)] = 0 # map Suc [0..<length xs]"
    by (simp add: upt_conv_Cons map_Suc_upt del: upt_Suc)
  have all: "\<And>k P. (\<forall>j<Suc k. P j) \<longleftrightarrow> P 0 \<and> (\<forall>j<k. P (Suc j))"
    by (metis less_Suc_eq_0_disj)
  have "\<And>k. (f ((x # xs) ! Suc k) \<notin> S \<and> (\<forall>j<Suc k. f ((x # xs) ! j) \<noteq> f ((x # xs) ! Suc k))) \<longleftrightarrow>
        (f (xs ! k) \<notin> insert (f x) S \<and> (\<forall>j<k. f (xs ! j) \<noteq> f (xs ! k)))"
    unfolding all by auto
  then show ?thesis
    unfolding split by (simp add: filter_map comp_def)
qed

lemma query_loop_sources:
  "(\<And>r. source_key (result_source r) (result_page r) \<in> q_seen_sources st \<longleftrightarrow> source_page r \<in> S) \<Longrightarrow>
   q_sources (query_loop i rs st) =
     q_sources st @
     map (\<lambda>k. source_of (rs ! k))
       (filter (\<lambda>k. source_page (rs ! k) \<notin> S \<and> (\<forall>j<k. source_page (rs ! j) \<noteq> source_page (rs ! k)))
          [0..<length rs])"
proof (induction rs arbitrary: i st S)
  case Nil
  then show ?case by simp
next
  case (Cons r rs)
  let ?st = "query_step i r st"
  let ?key = "source_key (result_source r) (result_page r)"
  let ?rest = "filter (\<lambda>k. source_page (rs ! k) \<notin> insert (source_page r) S \<and>
                  (\<forall>j<k. source_page (rs ! j) \<noteq> source_page (rs ! k))) [0..<length rs]"
  have F: "filter (\<lambda>k. source_page ((r # rs) ! k) \<notin> S \<and>
              (\<forall>j<k. source_page ((r # rs) ! j) \<noteq> source_page ((r # rs) ! k)))
            [0..<length (r # rs)] =
          (if source_page r \<notin> S then [0] else []) @ map Suc ?rest"
    by (rule first_filter_Cons)
  have seen: "?key \<in> q_seen_sources st \<longleftrightarrow> source_page r \<in> S"
    using Cons.prems by simp
  have st: "q_sources ?st = q_sources st @ (if source_page r \<notin> S then [source_of r] else [])"
    "q_seen_sources ?st = insert ?key (q_seen_sources st)"
    using seen by (auto simp: query_step_def Let_def)
  have inv: "\<And>r'. source_key (result_source r') (result_page r') \<in> q_seen_sources ?st
      \<longleftrightarrow> source_page r' \<in> insert (source_page r) S"
    using Cons.prems st(2) by (simp add: source_key_inj)
  have "q_sources (query_loop i (r # rs) st) = q_sources (query_loop (i + 1) rs ?st)"
    by simp
  also have "\<dots> = q_sources ?st @ map (\<lambda>k. source_of (rs ! k)) ?rest"
    by (rule Cons.IH [OF inv])
  also have "\<dots> = q_sources st @ map (\<lambda>k. source_of ((r # rs) ! k))
      ((if source_page r \<notin> S then [0] else []) @ map Suc ?rest)"
    using st(1) by (simp add: comp_def)
  finally show ?case unfolding F .
qed

lemma query_sources:
  "rc_sources (query results) =
     map (\<lambda>k. source_of (results ! k))
       (filter (\<lambda>k. \<forall>j<k. source_page (results ! j) \<noteq> source_page (results ! k))
          [0..<length results])"
proof (cases "results = []")
  case True
  then show ?thesis by (simp add: query_def)
next
  case False
  let ?st = "\<lparr>q_context_parts = [], q_sources = [], q_seen_sources = {}\<rparr>"
  have "\<And>r. source_key (result_source r) (result_page r) \<in> q_seen_sources ?st \<longleftrightarrow>
      source_page r \<in> {}" by simp
  from query_loop_sources [OF this, of 1 results] False show ?thesis
    by (simp add: query_def Let_def)
qed

lemma query_context:
  "results \<noteq> [] \<Longrightarrow> rc_context (query results) =
     join [CHR 0x0A, CHR 0x0A]
       (map (\<lambda>k. context_part (1 + int k) (sr_text (results ! k))) [0..<length results])"
  by (simp add: query_def Let_def query_loop_parts)

text \<open>
  C7. For every non-empty result list, the context of \<open>query\<close> is the entries
  \<open>[k+1] text\<close> of the results in order, joined by two newlines, and the sources
  are the source records of exactly those results whose pair of source and page does not
  occur at an earlier index, in order; every result, kept in the sources or not, has its
  numbered entry in the context.
\<close>

theorem query_context_and_sources:
  assumes "results \<noteq> []"
  shows "rc_context (query results) =
           join [CHR 0x0A, CHR 0x0A]
             (map (\<lambda>k. ''['' @ str_int (int k + 1) @ ''] '' @ sr_text (results ! k))
                [0..<length results]) \<and>
         rc_sources (query results) =
           map (\<lambda>k. source_of (results ! k))
             (filter (\<lambda>k. \<forall>j<k. source_page (results ! j) \<noteq> source_page (results ! k))
                [0..<length results]) \<and>
         (\<forall>r. (src_source (source_of r), src_page (source_of r)) = source_page r)"
proof (intro conjI)
  show "rc_context (query results) =
           join [CHR 0x0A, CHR 0x0A]
             (map (\<lambda>k. ''['' @ str_int (int k + 1) @ ''] '' @ sr_text (results ! k))
                [0..<length results])"
    using query_context [OF assms] by (simp add: context_part_def ac_simps)
  show "rc_sources (query results) =
           map (\<lambda>k. source_of (results ! k))
             (filter (\<lambda>k. \<forall>j<k. source_page (results ! j) \<noteq> source_page (results ! k))
                [0..<length results])"
    by (rule query_sources)
  show "\<forall>r. (src_source (source_of r), src_page (source_of r)) = source_page r"
    by (simp add: source_of_def source_page_def)
qed

lemma str_int_small: "str_int 1 = ''1''" "str_int 2 = ''2''"
  by code_simp+

theorem query_context_and_sources_witness:
  "[\<lparr>sr_text = ''alpha'',
      sr_metadata = \<lparr>md_source = Some ''a.pdf'', md_file_path = Some ''d/a.pdf'',
        md_page = Some 3, md_chunk_index = Some 7, md_total_chunks = Some 9,
        md_char_count = Some 5\<rparr>,
      sr_distance = None\<rparr>,
    \<lparr>sr_text = ''beta'',
      sr_metadata = \<lparr>md_source = Some ''a.pdf'', md_file_path = Some ''d/a.pdf'',
        md_page = Some 3, md_chunk_index = Some 8, md_total_chunks = Some 9,
        md_char_count = Some 4\<rparr>,
      sr_distance = None\<rparr>] \<noteq> [] \<and>
   query
     [\<lparr>sr_text = ''alpha'',
      sr_metadata = \<lparr>md_source = Some ''a.pdf'', md_file_path = Some ''d/a.pdf'',
        md_page = Some 3, md_chunk_index = Some 7, md_total_chunks = Some 9,
        md_char_count = Some 5\<rparr>,
      sr_distance = None\<rparr>,
    \<lparr>sr_text = ''beta'',
      sr_metadata = \<lparr>md_source = Some ''a.pdf'', md_file_path = Some ''d/a.pdf'',
        md_page = Some 3, md_chunk_index = Some 8, md_total_chunks = Some 9,
        md_char_count = Some 4\<rparr>,
      sr_distance = None\<rparr>] =
   \<lparr>rc_context = ''[1] alpha'' @ [CHR 0x0A, CHR 0x0A] @ ''[2] beta'',
    rc_sources = [\<lparr>src_source = ''a.pdf'', src_file_path = ''d/a.pdf'', src_page = PyInt 3,
                   src_chunk_index = 7, src_relevance_score = None\<rparr>]\<rparr>"
proof -
  let ?m1 = "\<lparr>md_source = Some ''a.pdf'', md_file_path = Some ''d/a.pdf'',
        md_page = Some 3, md_chunk_index = Some 7, md_total_chunks = Some 9,
        md_char_count = Some 5\<rparr>"
  let ?m2 = "\<lparr>md_source = Some ''a.pdf'', md_file_path = Some ''d/a.pdf'',
        md_page = Some 3, md_chunk_index = Some 8, md_total_chunks = Some 9,
        md_char_count = Some 4\<rparr>"
  let ?rs = "[\<lparr>sr_text = ''alpha'', sr_metadata = ?m1, sr_distance = None\<rparr>,
              \<lparr>sr_text = ''beta'', sr_metadata = ?m2, sr_distance = None\<rparr>]"
  have ne: "?rs \<noteq> []" by simp
  have up: "[0..<length ?rs] = [0, 1]" by (simp add: upt_conv_Cons)
  from query_context_and_sources [OF ne]
  have c: "rc_context (query ?rs) = ''[1] alpha'' @ [CHR 0x0A, CHR 0x0A] @ ''[2] beta''"
    and s: "rc_sources (query ?rs) =
      [\<lparr>src_source = ''a.pdf'', src_file_path = ''d/a.pdf'', src_page = PyInt 3,
        src_chunk_index = 7, src_relevance_score = None\<rparr>]"
    unfolding up
    by (simp_all add: str_int_small source_page_def result_source_def result_page_def
        source_of_def relevance_score_def)
  have "query ?rs = \<lparr>rc_context = rc_context (query ?rs), rc_sources = rc_sources (query ?rs)\<rparr>"
    by simp
  with c s ne show ?thesis by simp
qed


text \<open>
  C9. Every source record of \<open>query\<close> is the record of one of the results, and its
  relevance score is \<open>1 - distance\<close> when that result has a distance other than 0,
  and null otherwise: a distance of exactly 0 gives null, and a distance in (1, 2]
  gives the negative score \<open>1 - distance\<close>.
\<close>

theorem query_relevance_score:
  assumes "s \<in> set (rc_sources (query results))"
  shows "\<exists>r\<in>set results. s = source_of r \<and>
           src_relevance_score s =
             (case sr_distance r of
                None \<Rightarrow> None
              | Some d \<Rightarrow> if d = 0 then None else Some (1 - d)) \<and>
           (sr_distance r = Some 0 \<longrightarrow> src_relevance_score s = None) \<and>
           (\<forall>d. sr_distance r = Some d \<and> 1 < d \<and> d \<le> 2 \<longrightarrow>
                src_relevance_score s = Some (1 - d) \<and> 1 - d < 0)"
proof -
  from assms obtain k where k: "k < length results" "s = source_of (results ! k)"
    unfolding query_sources by auto
  let ?r = "results ! k"
  have "?r \<in> set results" using k(1) by simp
  moreover have "src_relevance_score s =
      (case sr_distance ?r of None \<Rightarrow> None | Some d \<Rightarrow> if d = 0 then None else Some (1 - d))"
    using k(2) by (simp add: source_of_def relevance_score_def split: option.splits)
  ultimately show ?thesis using k(2) by (intro bexI [of _ ?r]) auto
qed

theorem query_relevance_score_witness:
  "\<lparr>src_source = ''a.pdf'', src_file_path = ''d/a.pdf'', src_page = PyInt 3,
     src_chunk_index = 7, src_relevance_score = Some (- (1 / 2))\<rparr>
   \<in> set (rc_sources (query
       [\<lparr>sr_text = ''alpha'',
         sr_metadata = \<lparr>md_source = Some ''a.pdf'', md_file_path = Some ''d/a.pdf'',
           md_page = Some 3, md_chunk_index = Some 7, md_total_chunks = Some 9,
           md_char_count = Some 5\<rparr>,
         sr_distance = Some (3 / 2)\<rparr>]))"
proof -
  let ?r = "\<lparr>sr_text = ''alpha'',
         sr_metadata = \<lparr>md_source = Some ''a.pdf'', md_file_path = Some ''d/a.pdf'',
           md_page = Some 3, md_chunk_index = Some 7, md_total_chunks = Some 9,
           md_char_count = Some 5\<rparr>,
         sr_distance = Some (3 / 2)\<rparr>"
  have q: "rc_sources (query [?r]) = [source_of ?r]"
    by (simp add: query_def Let_def query_step_def)
  then have m: "source_of ?r \<in> set (rc_sources (query [?r]))" by simp
  from query_relevance_score [OF m]
  have "src_relevance_score (source_of ?r) = Some (1 - 3 / 2)" by simp
  moreover have "source_of ?r = \<lparr>src_source = ''a.pdf'', src_file_path = ''d/a.pdf'', src_page = PyInt 3,
     src_chunk_index = 7, src_relevance_score = src_relevance_score (source_of ?r)\<rparr>"
    by (simp add: source_of_def result_source_def result_page_def)
  ultimately have "source_of ?r = \<lparr>src_source = ''a.pdf'', src_file_path = ''d/a.pdf'', src_page = PyInt 3,
     src_chunk_index = 7, src_relevance_score = Some (- (1 / 2))\<rparr>"
    by simp
  with m show ?thesis by simp
qed

section \<open>Properties of the index store\<close>










lemma str_int_zero: "str_int 0 = ''0''"
  by code_simp




text \<open>Against the store of the specification the same call replaces the record.\<close>

lemma add_documents_overwrite_store_example:
  "add_documents collection_add_overwrite length
     [\<lparr>pc_text = ''beta'',
       pc_metadata = \<lparr>md_source = Some ''a.pdf'', md_file_path = Some ''d/a.pdf'',
         md_page = Some 1, md_chunk_index = Some 0, md_total_chunks = Some 1,
         md_char_count = Some 4\<rparr>\<rparr>]
     [''a.pdf_0'' \<mapsto>
       \<lparr>rec_embedding = length ''alpha'', rec_document = ''alpha'',
        rec_metadata = \<lparr>md_source = Some ''a.pdf'', md_file_path = Some ''d/a.pdf'',
          md_page = Some 1, md_chunk_index = Some 0, md_total_chunks = Some 1,
          md_char_count = Some 5\<rparr>\<rparr>] =
     Inr [''a.pdf_0'' \<mapsto>
       \<lparr>rec_embedding = length ''beta'', rec_document = ''beta'',
        rec_metadata = \<lparr>md_source = Some ''a.pdf'', md_file_path = Some ''d/a.pdf'',
          md_page = Some 1, md_chunk_index = Some 0, md_total_chunks = Some 1,
          md_char_count = Some 4\<rparr>\<rparr>]"
  by (simp add: add_documents_def record_id_def collection_add_overwrite_def str_int_zero)

end
